theory Spec2Isabelle
  imports
    Main
    "HOL-Library.Finite_Map"
    "HOL-Library.Product_Lexorder"
    "HOL-Library.List_Lexorder"
    "HOL-Library.Char_ord"
    "HOL-Library.Multiset"
begin

section \<open>Uniform-cost search: the program\<close>

text \<open>
  The development follows \<^verbatim>\<open>uniform_cost_search\<close> of \<^verbatim>\<open>main.py\<close>.

  \<^item> A node identifier is a value of a linearly ordered type: the frontier holds tuples
    \<^verbatim>\<open>(cost, node, path)\<close> and Python compares tuples lexicographically, so nodes
    (and lists of nodes) are compared whenever two costs are equal. The instances of
    \<open>Product_Lexorder\<close>, \<open>List_Lexorder\<close> and \<open>Char_ord\<close> give tuples, lists and
    strings the order Python gives them.
  \<^item> A graph is a Python dictionary from a node to its list of \<^verbatim>\<open>(connectedNode, cost)\<close>
    pairs: a finite map. Costs are Python integers.
  \<^item> \<^verbatim>\<open>graph[current_node]\<close> raises \<^verbatim>\<open>KeyError\<close> on a missing key, and
    \<^verbatim>\<open>heapq.heappop\<close> raises \<^verbatim>\<open>IndexError\<close> on an empty heap: both are values
    of the result type.
\<close>

datatype error = KeyError | IndexError

type_synonym 'n graph = "('n, ('n \<times> int) list) fmap"

type_synonym 'n entry = "int \<times> 'n \<times> 'n list"

type_synonym 'n result = "error + ('n list \<times> int) option"

subsection \<open>The priority queue\<close>

text \<open>
  \<^verbatim>\<open>heapq\<close> is the standard library's binary heap. The program uses two operations of
  it: \<^verbatim>\<open>heappush\<close> adds an item, \<^verbatim>\<open>heappop\<close> removes and returns the smallest item.
  The order on the items, tuples of an integer, a node and a list of nodes, is total, and
  two items that compare equal are the same value; so which item a pop returns, and which
  items remain, is fixed by the items the heap holds, whatever their arrangement inside the
  heap. The heap is modelled by the list of the items it holds.
\<close>

text \<open>
  \<open>heappush\<close> adds the item to the list. \<open>heappop\<close> returns the least item
  (\<open>fold min xs x\<close> is the least element of \<open>x # xs\<close>) and the list without one
  occurrence of it.
\<close>

definition heappush :: "'a list \<Rightarrow> 'a \<Rightarrow> 'a list" where
  "heappush heap item = heap @ [item]"

definition heappop :: "'a::linorder list \<Rightarrow> error + ('a \<times> 'a list)" where
  "heappop heap =
     (case heap of
        [] \<Rightarrow> Inl IndexError
      | x # xs \<Rightarrow> (let item = fold min xs x in Inr (item, remove1 item heap)))"

subsection \<open>The search\<close>

text \<open>
  The \<^verbatim>\<open>for\<close> loop over the edges of the expanded node: every edge to a node outside
  the visited set pushes one entry. The visited set does not change inside this loop.
\<close>

fun push_edges ::
  "'n set \<Rightarrow> int \<Rightarrow> 'n list \<Rightarrow> ('n \<times> int) list \<Rightarrow> 'n entry list \<Rightarrow> 'n entry list" where
  "push_edges visited current_cost path [] queue = queue"
| "push_edges visited current_cost path ((connectedNode, cost) # edges) queue =
     push_edges visited current_cost path edges
       (if connectedNode \<notin> visited
        then heappush queue (current_cost + cost, connectedNode, path @ [connectedNode])
        else queue)"

text \<open>
  The \<^verbatim>\<open>while queue:\<close> loop. \<open>None\<close> is the value of a loop that never leaves;
  \<open>Some r\<close> is a call that ends with \<open>r\<close>: \<open>Inr (Some (path, cost))\<close> for
  \<^verbatim>\<open>return (path, current_cost)\<close>, \<open>Inr None\<close> for \<^verbatim>\<open>return None\<close>, \<open>Inl e\<close>
  for an exception that leaves the call.
\<close>

partial_function (option) ucs_loop ::
  "'n::linorder graph \<Rightarrow> 'n \<Rightarrow> 'n entry list \<Rightarrow> 'n set \<Rightarrow> 'n result option" where
  "ucs_loop graph goal queue visited =
     (if queue = [] then Some (Inr None)
      else case heappop queue of
        Inl e \<Rightarrow> Some (Inl e)
      | Inr ((current_cost, current_node, path), queue') \<Rightarrow>
          if current_node = goal then Some (Inr (Some (path, current_cost)))
          else if current_node \<in> visited then ucs_loop graph goal queue' visited
          else (let visited' = insert current_node visited in
                case fmlookup graph current_node of
                  None \<Rightarrow> Some (Inl KeyError)
                | Some edges \<Rightarrow>
                    ucs_loop graph goal
                      (push_edges visited' current_cost path edges queue') visited'))"

declare ucs_loop.simps [code]

definition uniform_cost_search :: "'n::linorder graph \<Rightarrow> 'n \<Rightarrow> 'n \<Rightarrow> 'n result option" where
  "uniform_cost_search graph start goal =
     ucs_loop graph goal (heappush [] (0, start, [start])) {}"

subsection \<open>The search with a log of what each iteration did\<close>

text \<open>
  The same loop with one ghost variable, \<open>log\<close>: an iteration that reaches
  \<^verbatim>\<open>continue\<close> appends \<open>Discarded current_node\<close>, and an iteration that goes on to
  \<^verbatim>\<open>visited.add(current_node)\<close> and reads \<^verbatim>\<open>graph[current_node]\<close> appends
  \<open>Expanded current_node\<close>. Nothing else differs from \<open>ucs_loop\<close>.
\<close>

datatype 'n event = Expanded 'n | Discarded 'n

partial_function (option) ucs_loop_log ::
  "'n::linorder graph \<Rightarrow> 'n \<Rightarrow> 'n entry list \<Rightarrow> 'n set \<Rightarrow> 'n event list \<Rightarrow>
     ('n result \<times> 'n event list) option" where
  "ucs_loop_log graph goal queue visited log =
     (if queue = [] then Some (Inr None, log)
      else case heappop queue of
        Inl e \<Rightarrow> Some (Inl e, log)
      | Inr ((current_cost, current_node, path), queue') \<Rightarrow>
          if current_node = goal then Some (Inr (Some (path, current_cost)), log)
          else if current_node \<in> visited
          then ucs_loop_log graph goal queue' visited (log @ [Discarded current_node])
          else (let visited' = insert current_node visited;
                    log' = log @ [Expanded current_node] in
                case fmlookup graph current_node of
                  None \<Rightarrow> Some (Inl KeyError, log')
                | Some edges \<Rightarrow>
                    ucs_loop_log graph goal
                      (push_edges visited' current_cost path edges queue') visited' log'))"

declare ucs_loop_log.simps [code]

text \<open>
  \<open>expanded_nodes log\<close> lists the nodes of the \<open>Expanded\<close> events of a log, in order.
  \<open>discards_follow seen log\<close> holds when every \<open>Discarded n\<close> of the log comes after an
  \<open>Expanded n\<close> of the log, or has \<open>n\<close> in \<open>seen\<close>.
\<close>

definition expanded_nodes :: "'n event list \<Rightarrow> 'n list" where
  "expanded_nodes log = concat (map (\<lambda>e. case e of Expanded n \<Rightarrow> [n] | Discarded n \<Rightarrow> []) log)"

fun discards_follow :: "'n set \<Rightarrow> 'n event list \<Rightarrow> bool" where
  "discards_follow seen [] = True"
| "discards_follow seen (Expanded n # log) = discards_follow (insert n seen) log"
| "discards_follow seen (Discarded n # log) = (n \<in> seen \<and> discards_follow seen log)"

subsection \<open>The search as a step relation\<close>

text \<open>
  The same program once more, now with the heap known only by what \<^verbatim>\<open>heapq\<close> promises:
  after a push the heap holds the old items and the new one, a pop returns a smallest
  item and leaves the others, and nothing is said about how the items are arranged.
  \<open>ucs_step\<close> is one iteration of the \<^verbatim>\<open>while\<close> loop on such a heap, one rule for each
  way through the loop body; \<open>ucs_run\<close> is a whole call.
\<close>

definition pops :: "'a::linorder list \<Rightarrow> 'a \<Rightarrow> 'a list \<Rightarrow> bool" where
  "pops heap item rest \<longleftrightarrow>
     item \<in> set heap \<and> (\<forall>x \<in> set heap. item \<le> x) \<and> mset rest = mset heap - {#item#}"

definition pushes :: "'a list \<Rightarrow> 'a \<Rightarrow> 'a list \<Rightarrow> bool" where
  "pushes heap item heap' \<longleftrightarrow> mset heap' = mset heap + {#item#}"

text \<open>The \<^verbatim>\<open>for\<close> loop over the edges, each push leaving the heap in some arrangement.\<close>

inductive pushes_edges ::
  "'n set \<Rightarrow> int \<Rightarrow> 'n list \<Rightarrow> ('n \<times> int) list \<Rightarrow> 'n entry list \<Rightarrow> 'n entry list \<Rightarrow> bool"
  for visited :: "'n set" and current_cost :: int and path :: "'n list" where
  no_edge: "pushes_edges visited current_cost path [] queue queue"
| edge_pushed: "connectedNode \<notin> visited \<Longrightarrow>
     pushes queue (current_cost + cost, connectedNode, path @ [connectedNode]) queue' \<Longrightarrow>
     pushes_edges visited current_cost path edges queue' queue'' \<Longrightarrow>
     pushes_edges visited current_cost path ((connectedNode, cost) # edges) queue queue''"
| edge_skipped: "connectedNode \<in> visited \<Longrightarrow>
     pushes_edges visited current_cost path edges queue queue'' \<Longrightarrow>
     pushes_edges visited current_cost path ((connectedNode, cost) # edges) queue queue''"

datatype 'n config = Running "'n entry list" "'n set" | Finished "'n result"

inductive ucs_step :: "'n::linorder graph \<Rightarrow> 'n \<Rightarrow> 'n config \<Rightarrow> 'n config \<Rightarrow> bool"
  for graph :: "'n graph" and goal :: 'n where
  exhausted: "ucs_step graph goal (Running [] visited) (Finished (Inr None))"
| found: "pops queue (current_cost, goal, path) queue' \<Longrightarrow>
     ucs_step graph goal (Running queue visited) (Finished (Inr (Some (path, current_cost))))"
| discard: "pops queue (current_cost, current_node, path) queue' \<Longrightarrow>
     current_node \<noteq> goal \<Longrightarrow> current_node \<in> visited \<Longrightarrow>
     ucs_step graph goal (Running queue visited) (Running queue' visited)"
| missing: "pops queue (current_cost, current_node, path) queue' \<Longrightarrow>
     current_node \<noteq> goal \<Longrightarrow> current_node \<notin> visited \<Longrightarrow>
     fmlookup graph current_node = None \<Longrightarrow>
     ucs_step graph goal (Running queue visited) (Finished (Inl KeyError))"
| expand: "pops queue (current_cost, current_node, path) queue' \<Longrightarrow>
     current_node \<noteq> goal \<Longrightarrow> current_node \<notin> visited \<Longrightarrow>
     fmlookup graph current_node = Some edges \<Longrightarrow>
     pushes_edges (insert current_node visited) current_cost path edges queue' queue'' \<Longrightarrow>
     ucs_step graph goal (Running queue visited) (Running queue'' (insert current_node visited))"

definition ucs_run :: "'n::linorder graph \<Rightarrow> 'n \<Rightarrow> 'n \<Rightarrow> 'n result \<Rightarrow> bool" where
  "ucs_run graph start goal r \<longleftrightarrow>
     (\<exists>queue. pushes [] (0, start, [start]) queue \<and>
        (ucs_step graph goal)\<^sup>*\<^sup>* (Running queue {}) (Finished r))"

section \<open>Paths and their costs\<close>

text \<open>
  \<open>edge_walk graph path costs\<close>: \<open>path\<close> is a non-empty list of nodes, \<open>costs\<close> has one
  cost for each consecutive pair of it, and the \<open>i\<close>-th pair with the \<open>i\<close>-th cost is an
  edge listed in the graph. (The graph may list two edges between the same nodes with
  different costs; \<open>costs\<close> says which are meant.)
\<close>

fun edge_walk :: "'n graph \<Rightarrow> 'n list \<Rightarrow> int list \<Rightarrow> bool" where
  "edge_walk graph [u] [] = True"
| "edge_walk graph (u # v # path) (k # costs) =
     ((case fmlookup graph u of None \<Rightarrow> False | Some edges \<Rightarrow> (v, k) \<in> set edges)
      \<and> edge_walk graph (v # path) costs)"
| "edge_walk graph _ _ = False"

definition path_between :: "'n graph \<Rightarrow> 'n \<Rightarrow> 'n \<Rightarrow> 'n list \<Rightarrow> int \<Rightarrow> bool" where
  "path_between graph start goal path cost \<longleftrightarrow>
     path \<noteq> [] \<and> hd path = start \<and> last path = goal \<and>
     (\<exists>costs. edge_walk graph path costs \<and> sum_list costs = cost)"

definition reachable_at :: "'n graph \<Rightarrow> 'n \<Rightarrow> 'n \<Rightarrow> int \<Rightarrow> bool" where
  "reachable_at graph start goal cost \<longleftrightarrow> (\<exists>path. path_between graph start goal path cost)"

definition reachable :: "'n graph \<Rightarrow> 'n \<Rightarrow> 'n \<Rightarrow> bool" where
  "reachable graph start goal \<longleftrightarrow> (\<exists>cost. reachable_at graph start goal cost)"

definition nonneg_costs :: "'n graph \<Rightarrow> bool" where
  "nonneg_costs graph \<longleftrightarrow>
     (\<forall>n edges w k. fmlookup graph n = Some edges \<longrightarrow> (w, k) \<in> set edges \<longrightarrow> 0 \<le> k)"

definition reachable_are_keys :: "'n graph \<Rightarrow> 'n \<Rightarrow> bool" where
  "reachable_are_keys graph start \<longleftrightarrow> (\<forall>n. reachable graph start n \<longrightarrow> n \<in> fmdom' graph)"

definition min_cost :: "'n graph \<Rightarrow> 'n \<Rightarrow> 'n \<Rightarrow> int \<Rightarrow> bool" where
  "min_cost graph start goal cost \<longleftrightarrow>
     reachable_at graph start goal cost \<and>
     (\<forall>c. reachable_at graph start goal c \<longrightarrow> cost \<le> c)"

section \<open>Concrete graphs\<close>

text \<open>The graph of \<^verbatim>\<open>test.py\<close>.\<close>

definition test_graph :: "string graph" where
  "test_graph = fmap_of_list
     [(''A'', [(''B'', 2), (''C'', 1), (''D'', 7)]),
      (''B'', [(''E'', 5), (''F'', 3)]),
      (''C'', [(''B'', 4), (''F'', 6)]),
      (''D'', [(''G'', 8), (''C'', 2)]),
      (''E'', [(''H'', 3)]),
      (''F'', [(''H'', 2), (''I'', 4)]),
      (''G'', [(''J'', 4)]),
      (''H'', [(''I'', 1), (''J'', 2)]),
      (''I'', [(''J'', 3)]),
      (''J'', [])]"

text \<open>The graph of \<^verbatim>\<open>main.py\<close>.\<close>

definition main_graph :: "string graph" where
  "main_graph = fmap_of_list
     [(''A'', [(''B'', 1), (''C'', 5)]),
      (''B'', [(''C'', 2)]),
      (''C'', [])]"

text \<open>A graph whose only edge leads to a node that is no key.\<close>

definition dangling_graph :: "string graph" where
  "dangling_graph = fmap_of_list [(''A'', [(''B'', 1)])]"

text \<open>
  A graph with two paths of the same cost from S to G; the edge to B is listed before the
  edge to A.
\<close>

definition tie_graph :: "string graph" where
  "tie_graph = fmap_of_list
     [(''S'', [(''B'', 1), (''A'', 1)]),
      (''A'', [(''G'', 1)]),
      (''B'', [(''G'', 1)]),
      (''G'', [])]"

section \<open>Invariants of the loop\<close>

text \<open>Every entry of the frontier carries a path from the start to its node, with its cost.\<close>

definition entries_valid :: "'n graph \<Rightarrow> 'n \<Rightarrow> 'n entry list \<Rightarrow> bool" where
  "entries_valid graph start queue \<longleftrightarrow>
     (\<forall>(c, n, p) \<in> set queue. path_between graph start n p c)"

text \<open>
  The invariant behind optimality: the goal is never marked visited; the start is visited
  or still waits in the frontier at cost 0; and every edge that leaves the visited set has
  an entry for its target in the frontier, no dearer than any way of reaching the edge's
  source plus the edge.
\<close>

definition frontier_inv ::
  "'n graph \<Rightarrow> 'n \<Rightarrow> 'n \<Rightarrow> 'n entry list \<Rightarrow> 'n set \<Rightarrow> bool" where
  "frontier_inv graph start goal queue visited \<longleftrightarrow>
     entries_valid graph start queue \<and>
     goal \<notin> visited \<and>
     (start \<in> visited \<or> (0, start, [start]) \<in> set queue) \<and>
     (\<forall>v \<in> visited. \<forall>edges w k. fmlookup graph v = Some edges \<longrightarrow> (w, k) \<in> set edges \<longrightarrow>
        w \<in> visited \<or>
        (\<forall>c0. reachable_at graph start v c0 \<longrightarrow>
           (\<exists>c' p'. (c', w, p') \<in> set queue \<and> c' \<le> c0 + k)))"

text \<open>
  The log and the visited set: the visited set is the set of the nodes expanded so far, no
  node was expanded twice, and every discarded entry is for a node expanded before.
\<close>

definition log_inv :: "'n set \<Rightarrow> 'n event list \<Rightarrow> bool" where
  "log_inv visited log \<longleftrightarrow>
     set (expanded_nodes log) = visited \<and> distinct (expanded_nodes log) \<and>
     discards_follow {} log"

section \<open>The priority queue: what a pop returns\<close>

lemma fold_min_Min: "fold min xs (x::'a::linorder) = Min (set (x # xs))"
  by (simp only: Min.set_eq_fold)

lemma heappop_Nil: "heappop [] = Inl IndexError"
  by (simp add: heappop_def)

lemma heappop_nonempty:
  "heap \<noteq> [] \<Longrightarrow> heappop heap = Inr (Min (set heap), remove1 (Min (set heap)) heap)"
  by (cases heap) (simp_all add: heappop_def Let_def fold_min_Min del: set_simps)

lemma heappop_InrD:
  assumes "heappop heap = Inr (item, rest)"
  shows "item \<in> set heap" and "\<forall>x\<in>set heap. item \<le> x" and "rest = remove1 item heap"
proof -
  from assms have ne: "heap \<noteq> []" by (auto simp: heappop_Nil)
  have "item = Min (set heap) \<and> rest = remove1 (Min (set heap)) heap"
    using assms unfolding heappop_nonempty[OF ne] by blast
  then have item: "item = Min (set heap)" and rest: "rest = remove1 (Min (set heap)) heap"
    by blast+
  from ne show "item \<in> set heap" unfolding item by (simp add: Min_in)
  show "\<forall>x\<in>set heap. item \<le> x" unfolding item by simp
  show "rest = remove1 item heap" unfolding item by (rule rest)
qed

lemma heappop_length:
  assumes "heappop heap = Inr (item, rest)"
  shows "length rest < length heap"
proof -
  from heappop_InrD[OF assms] have "item \<in> set heap" and "rest = remove1 item heap" by simp_all
  then have "length rest = length heap - 1" and "heap \<noteq> []"
    by (auto simp: length_remove1)
  then show ?thesis by (cases heap) simp_all
qed

lemma heappop_set:
  assumes "heappop heap = Inr (item, rest)"
  shows "set rest \<subseteq> set heap" and "set heap \<subseteq> insert item (set rest)"
proof -
  from heappop_InrD[OF assms] have r: "rest = remove1 item heap" by simp
  show "set rest \<subseteq> set heap" unfolding r by (rule set_remove1_subset)
  show "set heap \<subseteq> insert item (set rest)" unfolding r
  proof
    fix x assume "x \<in> set heap"
    then show "x \<in> insert item (set (remove1 item heap))"
      by (cases "x = item") simp_all
  qed
qed

lemma set_push_edges:
  "set (push_edges visited c path edges queue) =
     set queue \<union> {(c + k, w, path @ [w]) | w k. (w, k) \<in> set edges \<and> w \<notin> visited}"
  by (induction visited c path edges queue rule: push_edges.induct) (auto simp: heappush_def)

section \<open>One iteration of the loop\<close>

lemma heappop_Inr_nonempty: "heappop queue = Inr x \<Longrightarrow> queue \<noteq> []"
  by (auto simp: heappop_Nil)

lemma heappop_cases:
  fixes queue :: "'n::linorder entry list"
  obtains "queue = []" | c n p rest where "heappop queue = Inr ((c, n, p), rest)"
proof (cases "queue = []")
  case True
  then show ?thesis by (rule that(1))
next
  case False
  obtain c n p where "Min (set queue) = (c, n, p)" by (rule prod_cases3)
  with heappop_nonempty[OF False] show ?thesis by (auto intro: that(2))
qed

lemma ucs_loop_empty: "ucs_loop graph goal [] visited = Some (Inr None)"
  by (subst ucs_loop.simps) simp

lemma ucs_loop_found:
  "heappop queue = Inr ((c, goal, p), rest) \<Longrightarrow>
   ucs_loop graph goal queue visited = Some (Inr (Some (p, c)))"
  by (subst ucs_loop.simps) (auto dest: heappop_Inr_nonempty)

lemma ucs_loop_discard:
  "heappop queue = Inr ((c, n, p), rest) \<Longrightarrow> n \<noteq> goal \<Longrightarrow> n \<in> visited \<Longrightarrow>
   ucs_loop graph goal queue visited = ucs_loop graph goal rest visited"
  by (subst ucs_loop.simps) (auto dest: heappop_Inr_nonempty)

lemma ucs_loop_missing:
  "heappop queue = Inr ((c, n, p), rest) \<Longrightarrow> n \<noteq> goal \<Longrightarrow> n \<notin> visited \<Longrightarrow>
   fmlookup graph n = None \<Longrightarrow>
   ucs_loop graph goal queue visited = Some (Inl KeyError)"
  by (subst ucs_loop.simps) (auto dest: heappop_Inr_nonempty)

lemma ucs_loop_expand:
  "heappop queue = Inr ((c, n, p), rest) \<Longrightarrow> n \<noteq> goal \<Longrightarrow> n \<notin> visited \<Longrightarrow>
   fmlookup graph n = Some edges \<Longrightarrow>
   ucs_loop graph goal queue visited =
     ucs_loop graph goal (push_edges (insert n visited) c p edges rest) (insert n visited)"
  by (subst ucs_loop.simps) (auto dest: heappop_Inr_nonempty simp: Let_def)

lemma ucs_state_induct [case_names iteration]:
  fixes graph :: "'n::linorder graph" and queue :: "'n entry list"
  assumes "\<And>queue visited.
      (\<And>c n p rest. heappop queue = Inr ((c, n, p), rest) \<Longrightarrow> n \<noteq> goal \<Longrightarrow> n \<in> visited \<Longrightarrow>
         P rest visited) \<Longrightarrow>
      (\<And>c n p rest edges. heappop queue = Inr ((c, n, p), rest) \<Longrightarrow> n \<noteq> goal \<Longrightarrow>
         n \<notin> visited \<Longrightarrow> fmlookup graph n = Some edges \<Longrightarrow>
         P (push_edges (insert n visited) c p edges rest) (insert n visited)) \<Longrightarrow>
      P queue visited"
  shows "P queue visited"
proof (induction "(queue, visited)" arbitrary: queue visited
    rule: wf_induct_rule[OF wf_measures[of
      "[\<lambda>(q, v). card (fmdom' graph - v), \<lambda>(q, v). length q]"]])
  case less: 1
  show ?case
  proof (rule assms)
    fix c n p rest
    assume "heappop queue = Inr ((c, n, p), rest)"
    then have "((rest, visited), (queue, visited)) \<in>
        measures [\<lambda>(q, v). card (fmdom' graph - v), \<lambda>(q, v). length q]"
      by (simp add: heappop_length)
    then show "P rest visited" by (rule less.hyps)
  next
    fix c n p rest edges
    assume "n \<notin> visited" "fmlookup graph n = Some edges"
    then have "n \<in> fmdom' graph - visited" by (simp add: fmdom'I)
    then have "card (fmdom' graph - insert n visited) < card (fmdom' graph - visited)"
      by (intro psubset_card_mono) auto
    then have "((push_edges (insert n visited) c p edges rest, insert n visited),
        (queue, visited)) \<in> measures [\<lambda>(q, v). card (fmdom' graph - v), \<lambda>(q, v). length q]"
      by simp
    then show "P (push_edges (insert n visited) c p edges rest) (insert n visited)"
      by (rule less.hyps)
  qed
qed

lemma ucs_loop_total:
  fixes graph :: "'n::linorder graph"
  assumes init: "I queue visited"
    and empty: "\<And>visited. I [] visited \<Longrightarrow> R (Inr None)"
    and found: "\<And>queue visited c p rest.
        I queue visited \<Longrightarrow> heappop queue = Inr ((c, goal, p), rest) \<Longrightarrow> R (Inr (Some (p, c)))"
    and discard: "\<And>queue visited c n p rest.
        I queue visited \<Longrightarrow> heappop queue = Inr ((c, n, p), rest) \<Longrightarrow> n \<noteq> goal \<Longrightarrow>
        n \<in> visited \<Longrightarrow> I rest visited"
    and missing: "\<And>queue visited c n p rest.
        I queue visited \<Longrightarrow> heappop queue = Inr ((c, n, p), rest) \<Longrightarrow> n \<noteq> goal \<Longrightarrow>
        n \<notin> visited \<Longrightarrow> fmlookup graph n = None \<Longrightarrow> R (Inl KeyError)"
    and expand: "\<And>queue visited c n p rest edges.
        I queue visited \<Longrightarrow> heappop queue = Inr ((c, n, p), rest) \<Longrightarrow> n \<noteq> goal \<Longrightarrow>
        n \<notin> visited \<Longrightarrow> fmlookup graph n = Some edges \<Longrightarrow>
        I (push_edges (insert n visited) c p edges rest) (insert n visited)"
  shows "\<exists>r. ucs_loop graph goal queue visited = Some r \<and> R r"
  using init
proof (induction queue visited rule: ucs_state_induct[where graph = graph and goal = goal])
  case (iteration queue visited)
  show ?case
  proof (cases queue rule: heappop_cases)
    case 1
    with iteration.prems empty show ?thesis by (auto simp: ucs_loop_empty)
  next
    case pop: (2 c n p rest)
    show ?thesis
    proof (cases "n = goal")
      case True
      with iteration.prems pop found show ?thesis by (auto simp: ucs_loop_found)
    next
      case ng: False
      show ?thesis
      proof (cases "n \<in> visited")
        case True
        have "I rest visited" using discard[OF iteration.prems pop ng True] .
        with iteration.IH(1)[OF pop ng True] show ?thesis
          by (simp only: ucs_loop_discard[OF pop ng True])
      next
        case nv: False
        show ?thesis
        proof (cases "fmlookup graph n")
          case None
          with iteration.prems pop ng nv missing show ?thesis
            by (auto simp: ucs_loop_missing)
        next
          case (Some edges)
          have "I (push_edges (insert n visited) c p edges rest) (insert n visited)"
            using expand[OF iteration.prems pop ng nv Some] .
          with iteration.IH(2)[OF pop ng nv Some] show ?thesis
            by (simp only: ucs_loop_expand[OF pop ng nv Some])
        qed
      qed
    qed
  qed
qed

section \<open>The trivial path\<close>

lemma heappop_single: "heappop [x] = Inr (x, [])"
  by (simp add: heappop_def)

text \<open>
  C6. For every graph and every node \<open>X\<close>, the search from \<open>X\<close> to \<open>X\<close> returns
  \<open>([X], 0)\<close>; the graph is never looked at, so this holds as well when \<open>X\<close> has no
  outgoing edge or is no key of the graph.
\<close>

theorem trivial_path:
  "uniform_cost_search graph X X = Some (Inr (Some ([X], 0)))"
  by (simp add: uniform_cost_search_def heappush_def ucs_loop.simps heappop_single)

section \<open>Paths carried by the frontier\<close>

lemma edge_walk_nonempty: "edge_walk graph path costs \<Longrightarrow> path \<noteq> []"
  by (cases path) auto

lemma edge_walk_snoc:
  "edge_walk graph path costs \<Longrightarrow> fmlookup graph (last path) = Some edges \<Longrightarrow>
   (w, k) \<in> set edges \<Longrightarrow> edge_walk graph (path @ [w]) (costs @ [k])"
  by (induction graph path costs rule: edge_walk.induct) auto

lemma path_between_start: "path_between graph start start [start] 0"
  unfolding path_between_def by (auto intro: exI[of _ "[]"])

lemma path_between_snoc:
  assumes "path_between graph start n path c"
    and "fmlookup graph n = Some edges" and "(w, k) \<in> set edges"
  shows "path_between graph start w (path @ [w]) (c + k)"
proof -
  from assms(1) obtain costs where p: "path \<noteq> []" "hd path = start" "last path = n"
    and w: "edge_walk graph path costs" and s: "sum_list costs = c"
    unfolding path_between_def by blast
  from w assms(2,3) p(3) have "edge_walk graph (path @ [w]) (costs @ [k])"
    by (auto intro: edge_walk_snoc)
  moreover have "sum_list (costs @ [k]) = c + k" using s by simp
  ultimately show ?thesis using p unfolding path_between_def by auto
qed

lemma entries_valid_init: "entries_valid graph start (heappush [] (0, start, [start]))"
  by (simp add: entries_valid_def heappush_def path_between_start)

lemma entries_valid_pop:
  assumes "entries_valid graph start queue" "heappop queue = Inr ((c, n, p), rest)"
  shows "path_between graph start n p c" and "entries_valid graph start rest"
  using assms heappop_InrD(1)[OF assms(2)] heappop_set(1)[OF assms(2)]
  unfolding entries_valid_def by auto

lemma entries_valid_push:
  assumes "entries_valid graph start rest" "path_between graph start n p c"
    "fmlookup graph n = Some edges"
  shows "entries_valid graph start (push_edges visited c p edges rest)"
  using assms unfolding entries_valid_def set_push_edges
  by (auto intro: path_between_snoc)

text \<open>
  C7. For every graph (a finite map, cycles or not) and every start and goal, the call
  ends: the loop is left after finitely many iterations, with a returned value or an
  exception. Each iteration either marks one more key of the graph visited or shortens the
  frontier with the visited set unchanged (\<open>ucs_state_induct\<close>).
\<close>

theorem always_terminates: "\<exists>r. uniform_cost_search graph start goal = Some r"
proof -
  have "\<exists>r. ucs_loop graph goal (heappush [] (0, start, [start])) {} = Some r \<and> True"
    by (rule ucs_loop_total[where I = "\<lambda>_ _. True"]) simp_all
  then show ?thesis by (simp add: uniform_cost_search_def)
qed

lemma ucs_loop_valid:
  assumes "entries_valid graph start queue"
  shows "\<exists>r. ucs_loop graph goal queue visited = Some r \<and>
    (case r of Inr (Some (path, cost)) \<Rightarrow> path_between graph start goal path cost | _ \<Rightarrow> True)"
proof (rule ucs_loop_total[where I = "\<lambda>q v. entries_valid graph start q"], goal_cases)
  case 1
  show ?case by (rule assms)
next
  case (3 queue visited c p rest)
  then show ?case by (simp add: entries_valid_pop(1))
next
  case (4 queue visited c n p rest)
  then show ?case by (blast intro: entries_valid_pop(2))
next
  case (6 queue visited c n p rest edges)
  then show ?case by (blast intro: entries_valid_push entries_valid_pop)
qed simp_all

text \<open>
  C2. Whenever the search returns a pair \<open>(path, cost)\<close>, the path begins with the start,
  ends with the goal, every consecutive pair of its nodes is an edge listed in the graph,
  and the costs of these edges sum to the returned cost.
\<close>

theorem returned_path_valid:
  assumes "uniform_cost_search graph start goal = Some (Inr (Some (path, cost)))"
  shows "path \<noteq> [] \<and> hd path = start \<and> last path = goal \<and>
    (\<exists>costs. edge_walk graph path costs \<and> sum_list costs = cost)"
proof -
  from ucs_loop_valid[OF entries_valid_init, where graph = graph and start = start
      and goal = goal and visited = "{}"] assms
  have "path_between graph start goal path cost"
    by (auto simp: uniform_cost_search_def)
  then show ?thesis by (simp add: path_between_def)
qed

section \<open>Facts about the concrete graphs\<close>

lemma edge_walk_last:
  "edge_walk graph path costs \<Longrightarrow>
   last path = hd path \<or> (\<exists>u edges k. fmlookup graph u = Some edges \<and> (last path, k) \<in> set edges)"
proof (induction graph path costs rule: edge_walk.induct)
  case (2 graph u v path k costs)
  then show ?case by (auto split: option.splits)
qed simp_all

lemma reachable_cases:
  assumes "reachable graph start n"
  shows "n = start \<or> (\<exists>u edges k. fmlookup graph u = Some edges \<and> (n, k) \<in> set edges)"
proof -
  from assms obtain path costs where "hd path = start" "last path = n" "edge_walk graph path costs"
    unfolding reachable_def reachable_at_def path_between_def by blast
  with edge_walk_last[of graph path costs] show ?thesis by auto
qed

lemma reachable_are_keysI:
  assumes "start \<in> fmdom' graph"
    and "\<And>u edges w k. fmlookup graph u = Some edges \<Longrightarrow> (w, k) \<in> set edges \<Longrightarrow> w \<in> fmdom' graph"
  shows "reachable_are_keys graph start"
  unfolding reachable_are_keys_def using reachable_cases[of graph start] assms by blast

lemma main_graph_nonneg: "nonneg_costs main_graph"
  unfolding nonneg_costs_def main_graph_def
  by (auto simp: fmlookup_of_list split: if_splits)

lemma main_graph_keys: "reachable_are_keys main_graph ''A''"
  by (rule reachable_are_keysI)
    (auto simp: main_graph_def fmlookup_of_list fmlookup_dom'_iff split: if_splits)

lemma main_graph_walk: "path_between main_graph ''A'' ''C'' [''A'', ''B'', ''C''] 3"
  unfolding path_between_def
  by (auto simp: main_graph_def fmlookup_of_list intro!: exI[of _ "[1, 2]"])

lemma search_main_graph:
  "uniform_cost_search main_graph ''A'' ''C'' = Some (Inr (Some ([''A'', ''B'', ''C''], 3)))"
  by code_simp

lemma main_graph_no_Z: "\<not> reachable main_graph ''A'' ''Z''"
  using reachable_cases[of main_graph "''A''" "''Z''"]
  by (auto simp: main_graph_def fmlookup_of_list split: if_splits)

lemma dangling_no_C: "\<not> reachable dangling_graph ''A'' ''C''"
  using reachable_cases[of dangling_graph "''A''" "''C''"]
  by (auto simp: dangling_graph_def fmlookup_of_list split: if_splits)

section \<open>Optimality\<close>

lemma reachable_at_start: "reachable_at graph start start 0"
  unfolding reachable_at_def by (blast intro: path_between_start)

lemma reachable_at_step:
  "reachable_at graph start n c \<Longrightarrow> fmlookup graph n = Some edges \<Longrightarrow> (w, k) \<in> set edges \<Longrightarrow>
   reachable_at graph start w (c + k)"
  unfolding reachable_at_def by (blast intro: path_between_snoc)

lemma edge_walk_nonneg:
  "nonneg_costs graph \<Longrightarrow> edge_walk graph path costs \<Longrightarrow> 0 \<le> sum_list costs"
proof (induction graph path costs rule: edge_walk.induct)
  case (2 graph u v path k costs)
  then have "0 \<le> k" by (auto simp: nonneg_costs_def split: option.splits)
  with 2 show ?case by simp
qed simp_all

lemma frontier_invD:
  assumes "frontier_inv graph start goal queue visited"
  shows "entries_valid graph start queue" and "goal \<notin> visited"
    and "start \<in> visited \<or> (0, start, [start]) \<in> set queue"
    and "\<And>v edges w k c0. v \<in> visited \<Longrightarrow> fmlookup graph v = Some edges \<Longrightarrow>
      (w, k) \<in> set edges \<Longrightarrow> w \<notin> visited \<Longrightarrow> reachable_at graph start v c0 \<Longrightarrow>
      \<exists>c' p'. (c', w, p') \<in> set queue \<and> c' \<le> c0 + k"
  using assms unfolding frontier_inv_def by blast+

lemma crossing_edge:
  "edge_walk graph path costs \<Longrightarrow> nonneg_costs graph \<Longrightarrow>
   frontier_inv graph start goal queue visited \<Longrightarrow>
   hd path \<in> visited \<Longrightarrow> last path \<notin> visited \<Longrightarrow>
   reachable_at graph start (hd path) c0 \<Longrightarrow>
   \<exists>c' m p'. (c', m, p') \<in> set queue \<and> c' \<le> c0 + sum_list costs"
proof (induction graph path costs arbitrary: c0 rule: edge_walk.induct)
  case (2 graph u v path k costs)
  from "2.prems"(1) obtain edges where e: "fmlookup graph u = Some edges" "(v, k) \<in> set edges"
    and w: "edge_walk graph (v # path) costs"
    by (auto split: option.splits)
  note nn = "2.prems"(2) and inv = "2.prems"(3)
  from "2.prems" have u: "u \<in> visited" and ru: "reachable_at graph start u c0" by simp_all
  show ?case
  proof (cases "v \<in> visited")
    case True
    have "reachable_at graph start v (c0 + k)" using ru e by (rule reachable_at_step)
    with "2.IH"[of "c0 + k"] w nn inv True "2.prems"(5) show ?thesis
      by (auto simp: add.assoc)
  next
    case False
    from frontier_invD(4)[OF inv u e False ru]
    obtain c' p' where "(c', v, p') \<in> set queue" "c' \<le> c0 + k" by blast
    moreover have "0 \<le> sum_list costs" using nn w by (rule edge_walk_nonneg)
    ultimately show ?thesis by (intro exI[of _ c'] exI[of _ v] exI[of _ p']) simp
  qed
qed simp_all

lemma frontier_covers:
  assumes nn: "nonneg_costs graph" and inv: "frontier_inv graph start goal queue visited"
    and r: "reachable_at graph start n c" and n: "n \<notin> visited"
  shows "\<exists>c' m p'. (c', m, p') \<in> set queue \<and> c' \<le> c"
proof -
  from r obtain path costs where p: "path \<noteq> []" "hd path = start" "last path = n"
    and w: "edge_walk graph path costs" and s: "sum_list costs = c"
    unfolding reachable_at_def path_between_def by blast
  show ?thesis
  proof (cases "start \<in> visited")
    case True
    from crossing_edge[OF w nn inv, of 0] True n p reachable_at_start[of graph start] s
    show ?thesis by simp
  next
    case False
    with frontier_invD(3)[OF inv] have "(0, start, [start]) \<in> set queue" by simp
    moreover have "0 \<le> c" using edge_walk_nonneg[OF nn w] s by simp
    ultimately show ?thesis by blast
  qed
qed

lemma heappop_least_cost:
  fixes queue :: "'n::linorder entry list"
  assumes "heappop queue = Inr ((c, n, p), rest)" and "(c', m, p') \<in> set queue"
  shows "c \<le> c'"
proof -
  from heappop_InrD(2)[OF assms(1)] assms(2) have "(c, n, p) \<le> (c', m, p')" by blast
  then show ?thesis by (auto simp: less_eq_prod_simp)
qed

lemma popped_is_cheapest:
  fixes queue :: "'n::linorder entry list"
  assumes nn: "nonneg_costs graph" and inv: "frontier_inv graph start goal queue visited"
    and pop: "heappop queue = Inr ((c, n, p), rest)" and n: "n \<notin> visited"
    and r: "reachable_at graph start n c0"
  shows "c \<le> c0"
proof -
  from frontier_covers[OF nn inv r n] obtain c' m p'
    where "(c', m, p') \<in> set queue" "c' \<le> c0" by blast
  with heappop_least_cost[OF pop] show ?thesis by fastforce
qed

lemma frontier_inv_init:
  "frontier_inv graph start goal (heappush [] (0, start, [start])) {}"
  unfolding frontier_inv_def using entries_valid_init[of graph start]
  by (simp add: heappush_def)

lemma in_rest_if_other_node:
  assumes "heappop queue = Inr ((c, n, p), rest)" "(c', m, p') \<in> set queue" "m \<noteq> n"
  shows "(c', m, p') \<in> set rest"
  using heappop_set(2)[OF assms(1)] assms(2,3) by auto

lemma frontier_inv_discard:
  assumes inv: "frontier_inv graph start goal queue visited"
    and pop: "heappop queue = Inr ((c, n, p), rest)" and n: "n \<in> visited"
  shows "frontier_inv graph start goal rest visited"
  unfolding frontier_inv_def
proof (intro conjI ballI allI impI)
  show "entries_valid graph start rest"
    using frontier_invD(1)[OF inv] pop by (rule entries_valid_pop(2))
  show "goal \<notin> visited" by (rule frontier_invD(2)[OF inv])
  show "start \<in> visited \<or> (0, start, [start]) \<in> set rest"
    using frontier_invD(3)[OF inv] n in_rest_if_other_node[OF pop, of 0 start "[start]"]
    by blast
next
  fix v edges w k
  assume v: "v \<in> visited" "fmlookup graph v = Some edges" "(w, k) \<in> set edges"
  show "w \<in> visited \<or> (\<forall>c0. reachable_at graph start v c0 \<longrightarrow>
      (\<exists>c' p'. (c', w, p') \<in> set rest \<and> c' \<le> c0 + k))"
  proof (cases "w \<in> visited")
    case False
    with n have "w \<noteq> n" by blast
    with frontier_invD(4)[OF inv v False] in_rest_if_other_node[OF pop]
    show ?thesis by blast
  qed simp
qed

lemma frontier_inv_expand:
  fixes queue :: "'n::linorder entry list"
  assumes nn: "nonneg_costs graph" and inv: "frontier_inv graph start goal queue visited"
    and pop: "heappop queue = Inr ((c, n, p), rest)" and ng: "n \<noteq> goal"
    and nv: "n \<notin> visited" and e: "fmlookup graph n = Some edges"
  shows "frontier_inv graph start goal
    (push_edges (insert n visited) c p edges rest) (insert n visited)"
  unfolding frontier_inv_def
proof (intro conjI ballI allI impI)
  let ?q = "push_edges (insert n visited) c p edges rest"
  have valid: "entries_valid graph start queue" by (rule frontier_invD(1)[OF inv])
  show "entries_valid graph start ?q"
    using entries_valid_pop[OF valid pop] e by (blast intro: entries_valid_push)
  show "goal \<notin> insert n visited" using frontier_invD(2)[OF inv] ng by simp
  have rest: "set rest \<subseteq> set ?q" by (auto simp: set_push_edges)
  show "start \<in> insert n visited \<or> (0, start, [start]) \<in> set ?q"
    using frontier_invD(3)[OF inv] in_rest_if_other_node[OF pop, of 0 start "[start]"] rest
    by blast
  fix v edges' w k
  assume v: "v \<in> insert n visited" "fmlookup graph v = Some edges'" "(w, k) \<in> set edges'"
  show "w \<in> insert n visited \<or> (\<forall>c0. reachable_at graph start v c0 \<longrightarrow>
      (\<exists>c' p'. (c', w, p') \<in> set ?q \<and> c' \<le> c0 + k))"
  proof (cases "w \<in> insert n visited")
    case False
    then have wn: "w \<noteq> n" and wv: "w \<notin> visited" by simp_all
    show ?thesis
    proof (cases "v = n")
      case True
      with v e have "(w, k) \<in> set edges" by simp
      with False have new: "(c + k, w, p @ [w]) \<in> set ?q" by (auto simp: set_push_edges)
      have "\<And>c0. reachable_at graph start v c0 \<Longrightarrow> c + k \<le> c0 + k"
        using popped_is_cheapest[OF nn inv pop nv] True by simp
      with new show ?thesis by blast
    next
      case False
      with v have "v \<in> visited" by simp
      from frontier_invD(4)[OF inv this v(2,3) wv] in_rest_if_other_node[OF pop _ wn] rest
      show ?thesis by blast
    qed
  qed simp
qed

lemma popped_reachable:
  assumes "entries_valid graph start queue" "heappop queue = Inr ((c, n, p), rest)"
  shows "reachable_at graph start n c" and "reachable graph start n"
  using entries_valid_pop(1)[OF assms] unfolding reachable_def reachable_at_def by blast+

text \<open>
  C1. For a graph with non-negative edge costs in which every node reachable from the start
  is a key, and a goal that some path reaches, the search returns a pair whose cost is the
  minimum of the total costs of all paths from the start to the goal (paths may repeat
  nodes).
\<close>

theorem optimal_cost:
  fixes graph :: "'n::linorder graph"
  assumes nn: "nonneg_costs graph" and keys: "reachable_are_keys graph start"
    and reach: "reachable graph start goal"
  shows "\<exists>path cost. uniform_cost_search graph start goal = Some (Inr (Some (path, cost))) \<and>
    min_cost graph start goal cost"
proof -
  let ?R = "\<lambda>r. \<exists>path cost. r = Inr (Some (path, cost)) \<and> min_cost graph start goal cost"
  have "\<exists>r. ucs_loop graph goal (heappush [] (0, start, [start])) {} = Some r \<and> ?R r"
  proof (rule ucs_loop_total[where I = "frontier_inv graph start goal"], goal_cases)
    case 1
    show ?case by (rule frontier_inv_init)
  next
    case (2 visited)
    from reach obtain c where "reachable_at graph start goal c" unfolding reachable_def ..
    from frontier_covers[OF nn 2 this frontier_invD(2)[OF 2]] show ?case by simp
  next
    case (3 queue visited c p rest)
    have "reachable_at graph start goal c"
      using frontier_invD(1)[OF 3(1)] 3(2) by (rule popped_reachable(1))
    moreover have "\<forall>c0. reachable_at graph start goal c0 \<longrightarrow> c \<le> c0"
      using popped_is_cheapest[OF nn 3(1) 3(2) frontier_invD(2)[OF 3(1)]] by blast
    ultimately show ?case unfolding min_cost_def by blast
  next
    case (4 queue visited c n p rest)
    then show ?case by (blast intro: frontier_inv_discard)
  next
    case (5 queue visited c n p rest)
    from popped_reachable(2)[OF frontier_invD(1)[OF 5(1)] 5(2)] keys
    have "n \<in> fmdom' graph" unfolding reachable_are_keys_def by blast
    with 5(5) show ?case by (simp add: fmlookup_dom'_iff)
  next
    case (6 queue visited c n p rest edges)
    then show ?case by (blast intro: frontier_inv_expand[OF nn])
  qed
  then show ?thesis unfolding uniform_cost_search_def by blast
qed

lemma ucs_loop_no_error:
  fixes graph :: "'n::linorder graph"
  assumes keys: "reachable_are_keys graph start" and valid: "entries_valid graph start queue"
  shows "\<exists>r. ucs_loop graph goal queue visited = Some r \<and>
    (r = Inr None \<or> (\<exists>path cost. r = Inr (Some (path, cost)) \<and> reachable graph start goal))"
proof (rule ucs_loop_total[where I = "\<lambda>q v. entries_valid graph start q"], goal_cases)
  case 1
  show ?case by (rule valid)
next
  case (3 queue visited c p rest)
  then show ?case by (simp add: popped_reachable(2))
next
  case (4 queue visited c n p rest)
  then show ?case by (blast intro: entries_valid_pop(2))
next
  case (5 queue visited c n p rest)
  from popped_reachable(2)[OF 5(1,2)] keys
  have "n \<in> fmdom' graph" unfolding reachable_are_keys_def by blast
  with 5(5) show ?case by (simp add: fmlookup_dom'_iff)
next
  case (6 queue visited c n p rest edges)
  then show ?case by (blast intro: entries_valid_push entries_valid_pop)
qed simp_all

text \<open>
  C5 (as amended). For a graph in which every node reachable from the start is a key, and a
  goal that no path from the start reaches, the search returns \<^verbatim>\<open>None\<close>: a returned
  value, no exception and no partial path.
\<close>

theorem unreachable_goal:
  fixes graph :: "'n::linorder graph"
  assumes "reachable_are_keys graph start" and "\<not> reachable graph start goal"
  shows "uniform_cost_search graph start goal = Some (Inr None)"
  using ucs_loop_no_error[OF assms(1) entries_valid_init, of goal "{}"] assms(2)
  by (auto simp: uniform_cost_search_def)

section \<open>The claims at concrete inputs\<close>

text \<open>The optimal cost on the graph of \<^verbatim>\<open>main.py\<close>: 3, by the path A, B, C.\<close>

theorem optimal_cost_witness:
  "nonneg_costs main_graph \<and> reachable_are_keys main_graph ''A'' \<and>
   reachable main_graph ''A'' ''C'' \<and>
   uniform_cost_search main_graph ''A'' ''C'' = Some (Inr (Some ([''A'', ''B'', ''C''], 3))) \<and>
   min_cost main_graph ''A'' ''C'' 3"
proof -
  have r: "reachable main_graph ''A'' ''C''"
    unfolding reachable_def reachable_at_def using main_graph_walk by blast
  from optimal_cost[OF main_graph_nonneg main_graph_keys r] search_main_graph
  have "min_cost main_graph ''A'' ''C'' 3" by simp
  with main_graph_nonneg main_graph_keys r search_main_graph show ?thesis by simp
qed

text \<open>The path returned on the graph of \<^verbatim>\<open>main.py\<close> is a path of the graph of cost 3.\<close>

theorem returned_path_valid_witness:
  "uniform_cost_search main_graph ''A'' ''C'' = Some (Inr (Some ([''A'', ''B'', ''C''], 3))) \<and>
   hd [''A'', ''B'', ''C''] = ''A'' \<and> last [''A'', ''B'', ''C''] = ''C'' \<and>
   (\<exists>costs. edge_walk main_graph [''A'', ''B'', ''C''] costs \<and> sum_list costs = 3)"
  using returned_path_valid[OF search_main_graph] search_main_graph by simp

text \<open>No edge of the graph of \<^verbatim>\<open>main.py\<close> leads to a node Z: the search for it returns \<^verbatim>\<open>None\<close>.\<close>

theorem unreachable_goal_witness:
  "reachable_are_keys main_graph ''A'' \<and> \<not> reachable main_graph ''A'' ''Z'' \<and>
   uniform_cost_search main_graph ''A'' ''Z'' = Some (Inr None)"
  using unreachable_goal[OF main_graph_keys main_graph_no_Z] main_graph_keys main_graph_no_Z
  by simp

text \<open>
  Without the condition on the keys the search for an unreachable goal can end in an
  exception: in \<open>dangling_graph\<close> no path leads from A to C, and the search expands B,
  which is no key.
\<close>

theorem unreachable_goal_counterexample:
  "\<not> reachable dangling_graph ''A'' ''C'' \<and>
   uniform_cost_search dangling_graph ''A'' ''C'' = Some (Inl KeyError)"
proof -
  have "uniform_cost_search dangling_graph ''A'' ''C'' = Some (Inl KeyError)" by code_simp
  with dangling_no_C show ?thesis by simp
qed

section \<open>The graph of the test\<close>

text \<open>
  C3 (as amended). On the ten-node graph of \<^verbatim>\<open>test.py\<close> the search from A to J returns
  the total cost 9 with the path A, B, F, H, J.
\<close>

theorem scenario_two:
  "uniform_cost_search test_graph ''A'' ''J'' =
     Some (Inr (Some ([''A'', ''B'', ''F'', ''H'', ''J''], 9)))"
  by code_simp

text \<open>The search does not return the path A, C, F, H, J (whose edges cost 1, 6, 2 and 2).\<close>

theorem scenario_two_counterexample:
  "uniform_cost_search test_graph ''A'' ''J'' \<noteq>
     Some (Inr (Some ([''A'', ''C'', ''F'', ''H'', ''J''], 9)))"
  by code_simp

section \<open>Nodes that are no keys of the graph\<close>

lemma ucs_loop_errors:
  fixes graph :: "'n::linorder graph"
  assumes valid: "entries_valid graph start queue"
  shows "\<exists>r. ucs_loop graph goal queue visited = Some r \<and>
    (\<forall>e. r = Inl e \<longrightarrow> e = KeyError \<and> (\<exists>n. reachable graph start n \<and> n \<notin> fmdom' graph))"
proof (rule ucs_loop_total[where I = "\<lambda>q v. entries_valid graph start q"], goal_cases)
  case 1
  show ?case by (rule valid)
next
  case (4 queue visited c n p rest)
  then show ?case by (blast intro: entries_valid_pop(2))
next
  case (5 queue visited c n p rest)
  from popped_reachable(2)[OF 5(1,2)] 5(5) show ?case
    by (auto simp: fmlookup_dom'_iff)
next
  case (6 queue visited c n p rest edges)
  then show ?case by (blast intro: entries_valid_push entries_valid_pop)
qed simp_all

text \<open>
  C4 (as amended). The search raises no exception when every node reachable from the start
  is a key of the graph (a node without outgoing edges being a key with the empty list);
  and when it does raise, the exception is \<^verbatim>\<open>KeyError\<close> and some node reachable from the
  start is no key of the graph.
\<close>

theorem fails_only_on_missing_key:
  fixes graph :: "'n::linorder graph"
  shows "(reachable_are_keys graph start \<longrightarrow>
            (\<exists>r. uniform_cost_search graph start goal = Some (Inr r))) \<and>
         (\<forall>e. uniform_cost_search graph start goal = Some (Inl e) \<longrightarrow>
            e = KeyError \<and> (\<exists>n. reachable graph start n \<and> n \<notin> fmdom' graph))"
proof -
  from ucs_loop_errors[OF entries_valid_init, where goal = goal and visited = "{}"]
  obtain r where r: "uniform_cost_search graph start goal = Some r"
    and e: "\<forall>e. r = Inl e \<longrightarrow> e = KeyError \<and> (\<exists>n. reachable graph start n \<and> n \<notin> fmdom' graph)"
    unfolding uniform_cost_search_def by blast
  show ?thesis
  proof (cases r)
    case (Inl e')
    with r e show ?thesis unfolding reachable_are_keys_def by auto
  next
    case (Inr x)
    with r show ?thesis by simp
  qed
qed

theorem fails_only_on_missing_key_witness:
  "reachable_are_keys main_graph ''A'' \<and>
   (\<exists>r. uniform_cost_search main_graph ''A'' ''Z'' = Some (Inr r)) \<and>
   uniform_cost_search dangling_graph ''A'' ''C'' = Some (Inl KeyError) \<and>
   (\<exists>n. reachable dangling_graph ''A'' n \<and> n \<notin> fmdom' dangling_graph)"
proof -
  have k: "uniform_cost_search dangling_graph ''A'' ''C'' = Some (Inl KeyError)" by code_simp
  from fails_only_on_missing_key[of main_graph "''A''" "''Z''"] main_graph_keys
  have "\<exists>r. uniform_cost_search main_graph ''A'' ''Z'' = Some (Inr r)" by blast
  moreover from fails_only_on_missing_key[of dangling_graph "''A''" "''C''"] k
  have "\<exists>n. reachable dangling_graph ''A'' n \<and> n \<notin> fmdom' dangling_graph" by blast
  ultimately show ?thesis using main_graph_keys k by blast
qed

text \<open>
  A node that is no key is not treated as a node with an empty edge list: on the empty graph
  the search from A to B raises \<^verbatim>\<open>KeyError\<close>, while on the graph that lists A with no
  edges it returns \<^verbatim>\<open>None\<close>.
\<close>

theorem missing_key_counterexample:
  "uniform_cost_search (fmap_of_list []) ''A'' ''B'' = Some (Inl KeyError) \<and>
   uniform_cost_search (fmap_of_list [(''A'', [])]) ''A'' ''B'' = Some (Inr None)"
  by code_simp

section \<open>Each node is expanded at most once\<close>

lemma ucs_loop_log_empty: "ucs_loop_log graph goal [] visited log = Some (Inr None, log)"
  by (subst ucs_loop_log.simps) simp

lemma ucs_loop_log_found:
  "heappop queue = Inr ((c, goal, p), rest) \<Longrightarrow>
   ucs_loop_log graph goal queue visited log = Some (Inr (Some (p, c)), log)"
  by (subst ucs_loop_log.simps) (auto dest: heappop_Inr_nonempty)

lemma ucs_loop_log_discard:
  "heappop queue = Inr ((c, n, p), rest) \<Longrightarrow> n \<noteq> goal \<Longrightarrow> n \<in> visited \<Longrightarrow>
   ucs_loop_log graph goal queue visited log =
     ucs_loop_log graph goal rest visited (log @ [Discarded n])"
  by (subst ucs_loop_log.simps) (auto dest: heappop_Inr_nonempty)

lemma ucs_loop_log_missing:
  "heappop queue = Inr ((c, n, p), rest) \<Longrightarrow> n \<noteq> goal \<Longrightarrow> n \<notin> visited \<Longrightarrow>
   fmlookup graph n = None \<Longrightarrow>
   ucs_loop_log graph goal queue visited log = Some (Inl KeyError, log @ [Expanded n])"
  by (subst ucs_loop_log.simps) (auto dest: heappop_Inr_nonempty)

lemma ucs_loop_log_expand:
  "heappop queue = Inr ((c, n, p), rest) \<Longrightarrow> n \<noteq> goal \<Longrightarrow> n \<notin> visited \<Longrightarrow>
   fmlookup graph n = Some edges \<Longrightarrow>
   ucs_loop_log graph goal queue visited log =
     ucs_loop_log graph goal (push_edges (insert n visited) c p edges rest)
       (insert n visited) (log @ [Expanded n])"
  by (subst ucs_loop_log.simps) (auto dest: heappop_Inr_nonempty simp: Let_def)

lemma expanded_nodes_simps [simp]:
  "expanded_nodes [] = []"
  "expanded_nodes (Expanded n # log) = n # expanded_nodes log"
  "expanded_nodes (Discarded n # log) = expanded_nodes log"
  "expanded_nodes (log @ log') = expanded_nodes log @ expanded_nodes log'"
  by (simp_all add: expanded_nodes_def)

lemma discards_follow_append:
  "discards_follow seen (log @ log') \<longleftrightarrow>
     discards_follow seen log \<and> discards_follow (seen \<union> set (expanded_nodes log)) log'"
  by (induction seen log rule: discards_follow.induct) simp_all

lemma log_inv_init: "log_inv {} []"
  by (simp add: log_inv_def)

lemma log_inv_discard: "log_inv visited log \<Longrightarrow> n \<in> visited \<Longrightarrow> log_inv visited (log @ [Discarded n])"
  by (auto simp: log_inv_def discards_follow_append)

lemma log_inv_expand:
  "log_inv visited log \<Longrightarrow> n \<notin> visited \<Longrightarrow> log_inv (insert n visited) (log @ [Expanded n])"
  by (auto simp: log_inv_def discards_follow_append)

lemma ucs_loop_log_run:
  fixes graph :: "'n::linorder graph"
  shows "log_inv visited log \<Longrightarrow>
    \<exists>r log'. ucs_loop_log graph goal queue visited log = Some (r, log') \<and>
      ucs_loop graph goal queue visited = Some r \<and> (\<exists>visited'. log_inv visited' log')"
proof (induction queue visited arbitrary: log
    rule: ucs_state_induct[where graph = graph and goal = goal])
  case (iteration queue visited)
  show ?case
  proof (cases queue rule: heappop_cases)
    case 1
    with iteration.prems show ?thesis by (auto simp: ucs_loop_empty ucs_loop_log_empty)
  next
    case pop: (2 c n p rest)
    show ?thesis
    proof (cases "n = goal")
      case True
      with iteration.prems pop show ?thesis
        by (auto simp: ucs_loop_found ucs_loop_log_found)
    next
      case ng: False
      show ?thesis
      proof (cases "n \<in> visited")
        case True
        from iteration.IH(1)[OF pop ng True log_inv_discard[OF iteration.prems True]]
        show ?thesis
          by (simp only: ucs_loop_discard[OF pop ng True] ucs_loop_log_discard[OF pop ng True])
      next
        case nv: False
        note inv' = log_inv_expand[OF iteration.prems nv]
        show ?thesis
        proof (cases "fmlookup graph n")
          case None
          with pop ng nv inv' show ?thesis
            by (auto simp: ucs_loop_missing ucs_loop_log_missing)
        next
          case (Some edges)
          from iteration.IH(2)[OF pop ng nv Some inv'] show ?thesis
            by (simp only: ucs_loop_expand[OF pop ng nv Some]
                ucs_loop_log_expand[OF pop ng nv Some])
        qed
      qed
    qed
  qed
qed

text \<open>
  C8. In every run of the search no node is expanded twice: the nodes whose edge lists are
  read, in the order of the iterations, are pairwise distinct, and an entry that is dequeued
  and discarded is an entry for a node that was expanded earlier in the run. (The logged
  loop returns what \<open>uniform_cost_search\<close> returns.)
\<close>

theorem expanded_at_most_once:
  fixes graph :: "'n::linorder graph"
  shows "\<exists>r log. ucs_loop_log graph goal (heappush [] (0, start, [start])) {} [] = Some (r, log) \<and>
    uniform_cost_search graph start goal = Some r \<and>
    distinct (expanded_nodes log) \<and> discards_follow {} log"
  using ucs_loop_log_run[OF log_inv_init, of graph goal "heappush [] (0, start, [start])"]
  unfolding uniform_cost_search_def log_inv_def by blast

text \<open>The run on the graph of \<^verbatim>\<open>test.py\<close>: eight expansions, three discarded entries.\<close>

theorem expanded_at_most_once_witness:
  "ucs_loop_log test_graph ''J'' (heappush [] (0, ''A'', [''A''])) {} [] =
     Some (Inr (Some ([''A'', ''B'', ''F'', ''H'', ''J''], 9)),
       [Expanded ''A'', Expanded ''C'', Expanded ''B'', Discarded ''B'',
        Expanded ''F'', Expanded ''D'', Expanded ''E'', Discarded ''F'',
        Expanded ''H'', Expanded ''I'', Discarded ''I'']) \<and>
   distinct [''A'', ''C'', ''B'', ''F'', ''D'', ''E'', ''H'', ''I'']"
proof -
  have run: "ucs_loop_log test_graph ''J'' (heappush [] (0, ''A'', [''A''])) {} [] =
     Some (Inr (Some ([''A'', ''B'', ''F'', ''H'', ''J''], 9)),
       [Expanded ''A'', Expanded ''C'', Expanded ''B'', Discarded ''B'',
        Expanded ''F'', Expanded ''D'', Expanded ''E'', Discarded ''F'',
        Expanded ''H'', Expanded ''I'', Discarded ''I''])"
    by code_simp
  from expanded_at_most_once[of test_graph "''J''" "''A''"] run
  have "distinct (expanded_nodes [Expanded ''A'', Expanded ''C'', Expanded ''B'', Discarded ''B'',
        Expanded ''F'', Expanded ''D'', Expanded ''E'', Discarded ''F'',
        Expanded ''H'', Expanded ''I'', Discarded ''I''])"
    by auto
  then have "distinct [''A'', ''C'', ''B'', ''F'', ''D'', ''E'', ''H'', ''I'']"
    by (simp only: expanded_nodes_simps)
  with run show ?thesis by blast
qed

section \<open>Ties between entries of equal cost\<close>

text \<open>
  C10. When the frontier holds an entry whose cost equals the cost of the entry that is
  dequeued, the dequeued one has the smaller node, or the same node and a path that is not
  greater: ties are resolved by comparing the nodes and then the paths, not by the order
  in which the entries were pushed.
\<close>

theorem equal_cost_tie_break:
  fixes queue :: "'n::linorder entry list"
  assumes "heappop queue = Inr ((c, n, p), rest)" and "(c, n', p') \<in> set queue"
  shows "n < n' \<or> (n = n' \<and> p \<le> p')"
proof -
  from heappop_InrD(2)[OF assms(1)] assms(2) have "(c, n, p) \<le> (c, n', p')" by blast
  then show ?thesis by (auto simp: less_eq_prod_simp)
qed

text \<open>
  The entry for A is popped before the entry for B although it was pushed after it; and
  on \<open>tie_graph\<close> the search returns the path through A, where the edge to B comes first.
\<close>

theorem equal_cost_tie_break_witness:
  "heappop (heappush (heappush [] (1::int, ''B'', [''S'', ''B''])) (1, ''A'', [''S'', ''A''])) =
     Inr ((1, ''A'', [''S'', ''A'']), [(1, ''B'', [''S'', ''B''])]) \<and>
   ''A'' < ''B'' \<and>
   uniform_cost_search tie_graph ''S'' ''G'' = Some (Inr (Some ([''S'', ''A'', ''G''], 2)))"
proof -
  have pop: "heappop (heappush (heappush [] (1::int, ''B'', [''S'', ''B''])) (1, ''A'', [''S'', ''A''])) =
     Inr ((1, ''A'', [''S'', ''A'']), [(1, ''B'', [''S'', ''B''])])"
    by code_simp
  have "(1::int, ''B'', [''S'', ''B'']) \<in>
      set (heappush (heappush [] (1, ''B'', [''S'', ''B''])) (1, ''A'', [''S'', ''A'']))"
    by (simp add: heappush_def)
  from equal_cost_tie_break[OF pop this] have "''A'' < ''B''" by simp
  moreover have "uniform_cost_search tie_graph ''S'' ''G'' =
      Some (Inr (Some ([''S'', ''A'', ''G''], 2)))"
    by code_simp
  ultimately show ?thesis using pop by simp
qed

section \<open>The result is a function of the three inputs\<close>

lemma heappop_pops:
  assumes "heappop heap = Inr (item, rest)"
  shows "pops heap item rest"
proof -
  note h = heappop_InrD[OF assms]
  have "mset rest = mset heap - {#item#}" unfolding h(3) by (rule mset_remove1)
  with h(1,2) show ?thesis unfolding pops_def by blast
qed

lemma pops_heappop:
  assumes "pops heap item rest" and "mset heap = mset heap0"
  shows "\<exists>rest0. heappop heap0 = Inr (item, rest0) \<and> mset rest = mset rest0"
proof -
  from assms(2) have s: "set heap = set heap0" by (rule mset_eq_setD)
  from assms(1) have mem: "item \<in> set heap0" and le: "\<forall>x \<in> set heap0. item \<le> x"
    and r: "mset rest = mset heap - {#item#}"
    unfolding pops_def s by blast+
  from mem have ne: "heap0 \<noteq> []" by auto
  have "Min (set heap0) = item" using le mem by (intro Min_eqI) auto
  then have pop: "heappop heap0 = Inr (item, remove1 item heap0)"
    using heappop_nonempty[OF ne] by simp
  have "mset rest = mset (remove1 item heap0)"
    unfolding r assms(2) by (rule mset_remove1[symmetric])
  with pop show ?thesis by blast
qed

lemma mset_push_edges:
  "mset queue = mset queue0 \<Longrightarrow>
   mset (push_edges visited c p edges queue) = mset (push_edges visited c p edges queue0)"
proof (induction edges arbitrary: queue queue0)
  case Nil
  then show ?case by simp
next
  case (Cons e edges)
  obtain w k where e: "e = (w, k)" by (cases e)
  show ?case
  proof (cases "w \<in> visited")
    case True
    with Cons.IH[OF Cons.prems] show ?thesis unfolding e by simp
  next
    case False
    have "mset (heappush queue (c + k, w, p @ [w])) = mset (heappush queue0 (c + k, w, p @ [w]))"
      unfolding heappush_def using Cons.prems by simp
    from Cons.IH[OF this] False show ?thesis unfolding e by simp
  qed
qed

lemma push_edges_pushes: "pushes_edges visited c p edges queue (push_edges visited c p edges queue)"
proof (induction visited c p edges queue rule: push_edges.induct)
  case (1 visited c p queue)
  show ?case by (simp add: pushes_edges.no_edge)
next
  case (2 visited c p w k edges queue)
  show ?case
  proof (cases "w \<in> visited")
    case True
    with 2 have "pushes_edges visited c p edges queue (push_edges visited c p edges queue)"
      by simp
    with True have "pushes_edges visited c p ((w, k) # edges) queue
        (push_edges visited c p edges queue)"
      by (rule pushes_edges.edge_skipped)
    with True show ?thesis by simp
  next
    case False
    let ?q = "heappush queue (c + k, w, p @ [w])"
    from 2 False have "pushes_edges visited c p edges ?q (push_edges visited c p edges ?q)"
      by simp
    moreover have "pushes queue (c + k, w, p @ [w]) ?q"
      by (simp add: pushes_def heappush_def)
    ultimately have "pushes_edges visited c p ((w, k) # edges) queue
        (push_edges visited c p edges ?q)"
      using False by (blast intro: pushes_edges.edge_pushed)
    with False show ?thesis by simp
  qed
qed

lemma pushes_edges_mset:
  "pushes_edges visited c p edges queue queue'' \<Longrightarrow> mset queue = mset queue0 \<Longrightarrow>
   mset queue'' = mset (push_edges visited c p edges queue0)"
proof (induction arbitrary: queue0 rule: pushes_edges.induct)
  case (no_edge queue)
  then show ?case by simp
next
  case (edge_pushed w queue k queue' edges queue'')
  have "mset queue' = mset (heappush queue0 (c + k, w, p @ [w]))"
    using edge_pushed.hyps(2) edge_pushed.prems unfolding pushes_def heappush_def by simp
  from edge_pushed.IH[OF this] edge_pushed.hyps(1) show ?case by simp
next
  case (edge_skipped w edges queue queue'' k)
  from edge_skipped.IH[OF edge_skipped.prems] edge_skipped.hyps(1) show ?case by simp
qed

lemma finished_no_step: "\<not> ucs_step graph goal (Finished r) c"
  by (rule notI) (erule ucs_step.cases; simp)

lemma finished_stays:
  "(ucs_step graph goal)\<^sup>*\<^sup>* (Finished r) c \<Longrightarrow> c = Finished r"
  by (erule converse_rtranclpE) (simp_all add: finished_no_step)

lemma execution_result:
  fixes graph :: "'n::linorder graph"
  shows "(ucs_step graph goal)\<^sup>*\<^sup>* c (Finished r) \<Longrightarrow> c = Running queue visited \<Longrightarrow>
    mset queue = mset queue0 \<Longrightarrow> ucs_loop graph goal queue0 visited = Some r"
proof (induction arbitrary: queue visited queue0 rule: converse_rtranclp_induct)
  case base
  then show ?case by simp
next
  case (step c c')
  from step.hyps(1) show ?case unfolding step.prems(1)
  proof (cases rule: ucs_step.cases)
    case exhausted
    with finished_stays[of graph goal "Inr None" "Finished r"] step.hyps(2) step.prems
    show ?thesis by (auto simp: ucs_loop_empty)
  next
    case (found current_cost path queue')
    from pops_heappop[OF found(2) step.prems(2)] obtain rest0
      where "heappop queue0 = Inr ((current_cost, goal, path), rest0)" by blast
    with finished_stays[of graph goal _ "Finished r"] step.hyps(2) found(1)
    show ?thesis by (auto simp: ucs_loop_found)
  next
    case (discard current_cost current_node path queue')
    from pops_heappop[OF discard(2) step.prems(2)] obtain rest0
      where pop: "heappop queue0 = Inr ((current_cost, current_node, path), rest0)"
        and m: "mset queue' = mset rest0" by blast
    from step.IH[OF discard(1) m] show ?thesis
      by (simp only: ucs_loop_discard[OF pop discard(3,4)])
  next
    case (missing current_cost current_node path queue')
    from pops_heappop[OF missing(2) step.prems(2)] obtain rest0
      where pop: "heappop queue0 = Inr ((current_cost, current_node, path), rest0)" by blast
    with finished_stays[of graph goal _ "Finished r"] step.hyps(2) missing
    show ?thesis by (auto simp: ucs_loop_missing)
  next
    case (expand current_cost current_node path queue' edges queue'')
    from pops_heappop[OF expand(2) step.prems(2)] obtain rest0
      where pop: "heappop queue0 = Inr ((current_cost, current_node, path), rest0)"
        and m: "mset queue' = mset rest0" by blast
    from step.IH[OF expand(1) pushes_edges_mset[OF expand(6) m]] show ?thesis
      by (simp only: ucs_loop_expand[OF pop expand(3,4,5)])
  qed
qed

lemma ucs_loop_execution:
  fixes graph :: "'n::linorder graph"
  shows "(ucs_step graph goal)\<^sup>*\<^sup>* (Running queue visited)
    (Finished (the (ucs_loop graph goal queue visited)))"
proof (induction queue visited rule: ucs_state_induct[where graph = graph and goal = goal])
  case (iteration queue visited)
  show ?case
  proof (cases queue rule: heappop_cases)
    case 1
    then show ?thesis by (auto simp: ucs_loop_empty intro: ucs_step.exhausted)
  next
    case pop: (2 c n p rest)
    note pops = heappop_pops[OF pop]
    show ?thesis
    proof (cases "n = goal")
      case True
      with pops pop show ?thesis by (auto simp: ucs_loop_found intro: ucs_step.found)
    next
      case ng: False
      show ?thesis
      proof (cases "n \<in> visited")
        case True
        have "ucs_step graph goal (Running queue visited) (Running rest visited)"
          using pops ng True by (rule ucs_step.discard)
        then have "(ucs_step graph goal)\<^sup>*\<^sup>* (Running queue visited)
            (Finished (the (ucs_loop graph goal rest visited)))"
          using iteration.IH(1)[OF pop ng True] by (rule converse_rtranclp_into_rtranclp)
        then show ?thesis by (simp only: ucs_loop_discard[OF pop ng True])
      next
        case nv: False
        show ?thesis
        proof (cases "fmlookup graph n")
          case None
          with pops pop ng nv show ?thesis
            by (auto simp: ucs_loop_missing intro: ucs_step.missing)
        next
          case (Some edges)
          have "ucs_step graph goal (Running queue visited)
              (Running (push_edges (insert n visited) c p edges rest) (insert n visited))"
            using pops ng nv Some push_edges_pushes by (rule ucs_step.expand)
          then have "(ucs_step graph goal)\<^sup>*\<^sup>* (Running queue visited)
              (Finished (the (ucs_loop graph goal
                (push_edges (insert n visited) c p edges rest) (insert n visited))))"
            using iteration.IH(2)[OF pop ng nv Some] by (rule converse_rtranclp_into_rtranclp)
          then show ?thesis by (simp only: ucs_loop_expand[OF pop ng nv Some])
        qed
      qed
    qed
  qed
qed

lemma ucs_run_exists:
  fixes graph :: "'n::linorder graph"
  assumes "uniform_cost_search graph start goal = Some r"
  shows "ucs_run graph start goal r"
proof -
  let ?q = "heappush [] (0, start, [start])"
  have "pushes [] (0, start, [start]) ?q" by (simp add: pushes_def heappush_def)
  moreover have "(ucs_step graph goal)\<^sup>*\<^sup>* (Running ?q {}) (Finished r)"
    using ucs_loop_execution[of graph goal ?q "{}"] assms
    by (simp add: uniform_cost_search_def)
  ultimately show ?thesis unfolding ucs_run_def by blast
qed

text \<open>
  C9. Two calls with the same graph, start and goal give the same result, and this result
  is the value of the function \<open>uniform_cost_search\<close> at the three inputs: whatever
  arrangement the heap gives its items, every run of the loop ends with that value. (The
  program reads and writes nothing but its arguments and its local queue and visited set;
  the model has nothing else.)
\<close>

theorem result_depends_on_inputs_only:
  fixes graph :: "'n::linorder graph"
  assumes "ucs_run graph start goal r" and "ucs_run graph start goal r'"
  shows "r = r' \<and> uniform_cost_search graph start goal = Some r"
proof -
  have *: "uniform_cost_search graph start goal = Some x" if "ucs_run graph start goal x" for x
  proof -
    from that obtain queue where q: "pushes [] (0, start, [start]) queue"
      and run: "(ucs_step graph goal)\<^sup>*\<^sup>* (Running queue {}) (Finished x)"
      unfolding ucs_run_def by blast
    from q have "mset queue = mset (heappush [] (0, start, [start]))"
      by (simp add: pushes_def heappush_def)
    from execution_result[OF run refl this] show ?thesis
      by (simp add: uniform_cost_search_def)
  qed
  from *[OF assms(1)] *[OF assms(2)] show ?thesis by simp
qed

text \<open>On the graph of \<^verbatim>\<open>main.py\<close> there is a run, and its result is the function's value.\<close>

theorem result_depends_on_inputs_only_witness:
  "ucs_run main_graph ''A'' ''C'' (Inr (Some ([''A'', ''B'', ''C''], 3))) \<and>
   uniform_cost_search main_graph ''A'' ''C'' = Some (Inr (Some ([''A'', ''B'', ''C''], 3)))"
proof -
  have run: "ucs_run main_graph ''A'' ''C'' (Inr (Some ([''A'', ''B'', ''C''], 3)))"
    using search_main_graph by (rule ucs_run_exists)
  from result_depends_on_inputs_only[OF run run] run show ?thesis by simp
qed

end
